theory Spec2Isabelle
  imports Complex_Main
begin

section \<open>Melodic contours: the encoder, the two extractors and the contour search\<close>

text \<open>
  The development follows \<^verbatim>\<open>backend/main.py\<close> and \<^verbatim>\<open>backend/ingest.py\<close>.
  Pitches are MIDI note numbers: integers (\<^typ>\<open>int\<close>) when they come from a MIDI file,
  fractional when they come from audio. A fractional pitch is read as the real number it
  denotes, and the difference of two pitches is the exact difference (as it is in floating
  point for two pitches within a factor 2 of each other). What the libraries compute in
  floating point (\<^verbatim>\<open>librosa.hz_to_midi\<close>) and what the file system answers are parameters.
  Strings are lists of 8-bit characters; case folding is the ASCII one.
\<close>

subsection \<open>Errors\<close>

text \<open>
  The exceptions of the source. \<open>LoadError\<close> stands for whatever the MIDI reader or the
  audio loader raises on a file it cannot read, \<open>OSError\<close> for whatever creating, opening
  or writing a file raises.
\<close>

datatype py_error = ValueError | FileNotFoundError | LoadError | OSError

subsection \<open>The contour encoder\<close>

text \<open>
  The body of the loop \<^verbatim>\<open>for i in range(1, len(notes))\<close>, which is the same text in
  \<^verbatim>\<open>notes_to_contour\<close> and in \<^verbatim>\<open>midi_to_contour\<close>: one symbol is appended per index.
\<close>

definition contour_append :: "'a::linorder list \<Rightarrow> string \<Rightarrow> nat \<Rightarrow> string" where
  "contour_append notes contour i =
     (if notes ! i > notes ! (i - 1) then contour @ ''U''
      else if notes ! i < notes ! (i - 1) then contour @ ''D''
      else contour @ ''R'')"

definition notes_to_contour :: "'a::linorder list \<Rightarrow> string option" where
  "notes_to_contour notes =
     (if length notes < 2 then None
      else Some (foldl (contour_append notes) ''*'' [1..<length notes]))"

subsection \<open>The symbolic extractor\<close>

text \<open>
  A MIDI message is a \<^verbatim>\<open>note_on\<close> or a \<^verbatim>\<open>note_off\<close> with a note and a velocity, or any
  other message (which has neither attribute; the source reads them only behind the test
  \<^verbatim>\<open>msg.type == 'note_on'\<close>). The selector \<open>msg_note\<close> is the source's \<^verbatim>\<open>msg.note\<close>.
\<close>

datatype msg = is_note_on: note_on (msg_note: int) (velocity: int) | note_off int int | other_msg

type_synonym track = "msg list"

text \<open>\<^verbatim>\<open>len([msg for msg in t if msg.type == 'note_on'])\<close>\<close>

definition note_on_count :: "track \<Rightarrow> nat" where
  "note_on_count t = length (filter is_note_on t)"

text \<open>
  Python's \<^verbatim>\<open>max(iterable, key=...)\<close>: the running maximum is replaced only by an item
  whose key is strictly greater; an empty iterable raises \<^verbatim>\<open>ValueError\<close>.
\<close>

fun max_loop :: "('a \<Rightarrow> nat) \<Rightarrow> 'a \<Rightarrow> 'a list \<Rightarrow> 'a" where
  "max_loop key best [] = best"
| "max_loop key best (x # xs) = max_loop key (if key x > key best then x else best) xs"

fun py_max :: "('a \<Rightarrow> nat) \<Rightarrow> 'a list \<Rightarrow> py_error + 'a" where
  "py_max key [] = Inl ValueError"
| "py_max key (x # xs) = Inr (max_loop key x xs)"

text \<open>The loop \<^verbatim>\<open>for msg in melody_track\<close> with its accumulator \<^verbatim>\<open>notes\<close>.\<close>

definition notes_append :: "int list \<Rightarrow> msg \<Rightarrow> int list" where
  "notes_append notes m =
     (case m of
        note_on n v \<Rightarrow> if v > 0 then notes @ [n] else notes
      | _ \<Rightarrow> notes)"

definition track_notes :: "track \<Rightarrow> int list" where
  "track_notes melody_track = foldl notes_append [] melody_track"

text \<open>
  The argument is the outcome of \<^verbatim>\<open>mido.MidiFile(midi_path)\<close>: an exception or the tracks
  of the file. The body is the \<^verbatim>\<open>try\<close> block; \<open>midi_to_contour\<close> adds the handler, which
  turns every exception into \<^verbatim>\<open>None\<close>.
\<close>

definition midi_to_contour_body :: "py_error + track list \<Rightarrow> py_error + string option" where
  "midi_to_contour_body mid =
     (case mid of
        Inl e \<Rightarrow> Inl e
      | Inr tracks \<Rightarrow>
          (case py_max note_on_count tracks of
             Inl e \<Rightarrow> Inl e
           | Inr melody_track \<Rightarrow>
               (let notes = track_notes melody_track
                in if length notes < 2 then Inr None
                   else Inr (Some (foldl (contour_append notes) ''*'' [1..<length notes])))))"

definition midi_to_contour :: "py_error + track list \<Rightarrow> string option" where
  "midi_to_contour mid =
     (case midi_to_contour_body mid of Inl e \<Rightarrow> None | Inr contour \<Rightarrow> contour)"

subsection \<open>The audio segmenter\<close>

text \<open>
  One round of the loop \<^verbatim>\<open>for t in range(pitches.shape[1])\<close>; \<open>pitch\<close> is the dominant
  pitch of the frame, \<^verbatim>\<open>pitches[magnitudes[:, t].argmax(), t]\<close>, in Hz (not positive where
  the tracker found none). The first argument is \<^verbatim>\<open>librosa.hz_to_midi\<close>, a function of the
  library that the source calls: it is computed in floating point (an approximation of
  \<open>12 * (log2 f - log2 440) + 69\<close>), and nothing is assumed about it.
\<close>

definition frame_step :: "(real \<Rightarrow> real) \<Rightarrow> real list \<Rightarrow> real \<Rightarrow> real list" where
  "frame_step hz_to_midi notes pitch =
     (if pitch > 0 then
        (let midi_note = hz_to_midi pitch
         in if notes = [] \<or> \<bar>midi_note - last notes\<bar> > 0.5 then notes @ [midi_note]
            else notes)
      else notes)"

definition audio_notes :: "(real \<Rightarrow> real) \<Rightarrow> real list \<Rightarrow> real list" where
  "audio_notes hz_to_midi frames = foldl (frame_step hz_to_midi) [] frames"

text \<open>
  What \<^verbatim>\<open>audio_to_contour\<close> finds at \<^verbatim>\<open>file_path\<close>: no file, a file of size zero, a file
  that \<^verbatim>\<open>librosa.load\<close> cannot decode, or audio whose frames have the given dominant pitches.
\<close>

datatype audio_file = no_file | zero_size | undecodable | decoded "real list"

definition audio_to_contour_body ::
  "(real \<Rightarrow> real) \<Rightarrow> audio_file \<Rightarrow> py_error + string option" where
  "audio_to_contour_body hz_to_midi file =
     (case file of
        no_file \<Rightarrow> Inl FileNotFoundError
      | zero_size \<Rightarrow> Inl ValueError
      | undecodable \<Rightarrow> Inl LoadError
      | decoded frames \<Rightarrow> Inr (notes_to_contour (audio_notes hz_to_midi frames)))"

definition audio_to_contour :: "(real \<Rightarrow> real) \<Rightarrow> audio_file \<Rightarrow> string option" where
  "audio_to_contour hz_to_midi file =
     (case audio_to_contour_body hz_to_midi file of
        Inl e \<Rightarrow> None
      | Inr contour \<Rightarrow> contour)"

subsection \<open>The corpus and the contour search\<close>

datatype doc_id = ObjectId string | Str string

record document =
  doc_id :: doc_id
  title :: string
  composer :: string
  melodic_contour :: string
  lilypond_path :: string

text \<open>\<^verbatim>\<open>doc["_id"] = str(doc["_id"])\<close>\<close>

definition serialize_doc :: "document \<Rightarrow> document" where
  "serialize_doc doc =
     doc\<lparr>doc_id := Str (case doc_id doc of ObjectId hex \<Rightarrow> hex | Str s \<Rightarrow> s)\<rparr>"

text \<open>
  \<^verbatim>\<open>re.escape\<close> (Python 3.7 and later): a backslash before each of the characters
  \<^verbatim>\<open>()[]{}?*+-|^$\.&~#\<close>, space, tab, newline, carriage return, vertical tab and form feed.
\<close>

definition backslash :: char where
  "backslash = CHR 0x5C"

definition special_chars :: string where
  "special_chars = ''()[]{}?*+-|^$'' @ [backslash] @ ''.&~# '' @
     [CHR 0x09, CHR 0x0A, CHR 0x0D, CHR 0x0B, CHR 0x0C]"

definition re_escape :: "string \<Rightarrow> string" where
  "re_escape pattern =
     concat (map (\<lambda>c. if c \<in> set special_chars then [backslash, c] else [c]) pattern)"

text \<open>
  The store's regular expressions (PCRE), as far as the search needs them: a pattern made
  of ordinary characters and of backslash escapes of characters that are neither letters
  nor digits stands for the string of those characters. \<open>literal_pattern\<close> reads such a
  pattern; it is \<open>None\<close> on every other pattern (an unescaped metacharacter, a backslash
  before a letter or a digit, a backslash at the end), whose meaning is not modelled.
\<close>

definition metachars :: string where
  "metachars = [backslash] @ ''^$.[|()?*+{''"

definition alnum :: "char \<Rightarrow> bool" where
  "alnum c = (c \<in> set ''0123456789abcdefghijklmnopqrstuvwxyzABCDEFGHIJKLMNOPQRSTUVWXYZ'')"

fun literal_pattern :: "string \<Rightarrow> string option" where
  "literal_pattern [] = Some []"
| "literal_pattern [c] = (if c \<in> set metachars then None else Some [c])"
| "literal_pattern (c # d # cs) =
     (if c = backslash then
        (if alnum d then None else map_option ((#) d) (literal_pattern cs))
      else if c \<in> set metachars then None
      else map_option ((#) c) (literal_pattern (d # cs)))"

text \<open>Option \<^verbatim>\<open>i\<close>: letters match without regard to case.\<close>

definition ascii_lower :: "char \<Rightarrow> char" where
  "ascii_lower c =
     (case map_of (zip ''ABCDEFGHIJKLMNOPQRSTUVWXYZ'' ''abcdefghijklmnopqrstuvwxyz'') c of
        Some l \<Rightarrow> l
      | None \<Rightarrow> c)"

fun match_here :: "string \<Rightarrow> string \<Rightarrow> bool" where
  "match_here [] subject = True"
| "match_here (p # ps) [] = False"
| "match_here (p # ps) (c # cs) = (ascii_lower p = ascii_lower c \<and> match_here ps cs)"

text \<open>An unanchored pattern is tried at every position of the subject, from the left.\<close>

fun match_anywhere :: "string \<Rightarrow> string \<Rightarrow> bool" where
  "match_anywhere lit [] = match_here lit []"
| "match_anywhere lit (c # cs) = (match_here lit (c # cs) \<or> match_anywhere lit cs)"

text \<open>\<^verbatim>\<open>cursor.limit(n)\<close>: the first \<open>n\<close> documents; a limit of 0 is no limit.\<close>

definition cursor_limit :: "nat \<Rightarrow> 'a list \<Rightarrow> 'a list" where
  "cursor_limit n cursor = (if n = 0 then cursor else take n cursor)"

text \<open>
  \<^verbatim>\<open>collection_compositions.find({"melodic_contour": {"$regex": r, "$options": "i"}}).limit(n)\<close>
  over the documents of the collection in their natural order.
\<close>

definition find_regex :: "document list \<Rightarrow> string \<Rightarrow> nat \<Rightarrow> document list option" where
  "find_regex collection_compositions regex n =
     (case literal_pattern regex of
        None \<Rightarrow> None
      | Some lit \<Rightarrow>
          Some (cursor_limit n (filter (\<lambda>doc. match_anywhere lit (melodic_contour doc))
                                  collection_compositions)))"

record parsons_response =
  query :: string
  results :: "document list"

record audio_response =
  generated_contour :: "string option"
  audio_results :: "document list"

text \<open>
  The text endpoint. The result is \<open>None\<close> only where \<open>find_regex\<close> is, that is on a
  regular expression outside the modelled fragment.
\<close>

definition search_by_parsons :: "document list \<Rightarrow> string \<Rightarrow> parsons_response option" where
  "search_by_parsons collection_compositions q =
     (let escaped_query = re_escape q
      in map_option (\<lambda>results_cursor. \<lparr>query = q, results = map serialize_doc results_cursor\<rparr>)
           (find_regex collection_compositions escaped_query 20))"

text \<open>
  An uploaded file: its name and its bytes, which are no bytes at all, bytes that
  \<^verbatim>\<open>librosa.load\<close> cannot decode, or audio whose frames have the given dominant pitches.
  \<open>written_file\<close> is what \<^verbatim>\<open>audio_to_contour\<close> finds at \<^verbatim>\<open>file_path\<close> once the bytes are written
  there.
\<close>

datatype audio_bytes = no_bytes | bad_bytes | audio_bytes "real list"

record upload =
  filename :: string
  contents :: audio_bytes

fun written_file :: "audio_bytes \<Rightarrow> audio_file" where
  "written_file no_bytes = zero_size"
| "written_file bad_bytes = undecodable"
| "written_file (audio_bytes frames) = decoded frames"

text \<open>\<^verbatim>\<open>os.path.join\<close> of two components (POSIX): an absolute second component wins.\<close>

definition path_join :: "string \<Rightarrow> string \<Rightarrow> string" where
  "path_join a b =
     (if take 1 b = ''/'' then b
      else if a = [] \<or> last a = CHR ''/'' then a @ b
      else a @ ''/'' @ b)"

text \<open>
  The audio endpoint. \<open>can_write path\<close> is the file system's answer: whether
  \<^verbatim>\<open>os.makedirs(temp_dir, exist_ok=True)\<close>, \<^verbatim>\<open>open(file_path, "wb")\<close> and the write succeed.
  Where they do not, the exception passes through the \<^verbatim>\<open>finally\<close> block (which only removes
  the file) and leaves the endpoint: the block has no handler. The outer \<open>None\<close> is as in
  \<open>search_by_parsons\<close>.
\<close>

definition search_by_audio ::
  "(real \<Rightarrow> real) \<Rightarrow> (string \<Rightarrow> bool) \<Rightarrow> document list \<Rightarrow> upload \<Rightarrow>
     (py_error + audio_response) option" where
  "search_by_audio hz_to_midi can_write collection_compositions file =
     (let temp_dir = ''temp_audio'';
          file_path = path_join temp_dir (filename file)
      in if \<not> can_write file_path then Some (Inl OSError)
         else
           (case audio_to_contour hz_to_midi (written_file (contents file)) of
              None \<Rightarrow> Some (Inr \<lparr>generated_contour = None, audio_results = []\<rparr>)
            | Some contour \<Rightarrow>
                if contour = []
                then Some (Inr \<lparr>generated_contour = None, audio_results = []\<rparr>)
                else map_option
                       (\<lambda>results_cursor. Inr \<lparr>generated_contour = Some contour,
                                               audio_results = map serialize_doc results_cursor\<rparr>)
                       (find_regex collection_compositions (re_escape contour) 10)))"

section \<open>Properties\<close>

subsection \<open>The encoder loop\<close>

lemma foldl_contour_append:
  "foldl (contour_append notes) acc is =
     acc @ map (\<lambda>i. if notes ! i > notes ! (i - 1) then CHR ''U''
                     else if notes ! i < notes ! (i - 1) then CHR ''D'' else CHR ''R'') is"
  by (induction "is" arbitrary: acc) (simp_all add: contour_append_def)

lemma midi_to_contour_tracks:
  "midi_to_contour (Inr tracks) =
     (case py_max note_on_count tracks of
        Inl e \<Rightarrow> None
      | Inr melody_track \<Rightarrow> notes_to_contour (track_notes melody_track))"
  by (simp add: midi_to_contour_def midi_to_contour_body_def notes_to_contour_def Let_def
           split: sum.splits)

text \<open>
  C1. For a pitch sequence \<open>p\<close> of length \<open>n \<ge> 2\<close> the encoder returns a string of length
  \<open>n\<close> that starts with \<open>*\<close> and whose \<open>i\<close>-th character, for \<open>1 \<le> i < n\<close>, is \<open>U\<close> when
  \<open>p[i] > p[i-1]\<close>, \<open>D\<close> when \<open>p[i] < p[i-1]\<close> and \<open>R\<close> when they are equal; the encoder
  written out in \<open>midi_to_contour\<close> is the same function of the notes of the melody track;
  and the notes 60, 62, 64, 63 give \<open>*UUD\<close>.
\<close>

theorem contour_encoder_spec:
  fixes p :: "'a::linorder list"
  shows "(2 \<le> length p \<longrightarrow>
           (\<exists>c. notes_to_contour p = Some c \<and> length c = length p \<and> c ! 0 = CHR ''*'' \<and>
              (\<forall>i. 1 \<le> i \<and> i < length p \<longrightarrow>
                   c ! i = (if p ! i > p ! (i - 1) then CHR ''U''
                            else if p ! i < p ! (i - 1) then CHR ''D'' else CHR ''R'')))) \<and>
         (py_max note_on_count tracks = Inr t \<and> 2 \<le> length (track_notes t) \<longrightarrow>
            midi_to_contour (Inr tracks) = notes_to_contour (track_notes t)) \<and>
         notes_to_contour [60, 62, 64, 63 :: int] = Some ''*UUD''"
proof (intro conjI impI)
  let ?sym = "\<lambda>i. if p ! i > p ! (i - 1) then CHR ''U''
                    else if p ! i < p ! (i - 1) then CHR ''D'' else CHR ''R''"
  let ?c = "CHR ''*'' # map ?sym [1..<length p]"
  assume two: "2 \<le> length p"
  have eq: "notes_to_contour p = Some ?c"
    using two by (simp add: notes_to_contour_def foldl_contour_append)
  have len: "length ?c = length p"
    using two by simp
  have nth: "?c ! i = ?sym i" if pos: "1 \<le> i" and less: "i < length p" for i
  proof -
    from pos obtain k where k: "i = Suc k" by (cases i) auto
    with less have "k < length [1..<length p]" by simp
    then have "map ?sym [1..<length p] ! k = ?sym (1 + k)"
      by (simp only: nth_map nth_upt length_upt)
    with k show ?thesis by simp
  qed
  show "\<exists>c. notes_to_contour p = Some c \<and> length c = length p \<and> c ! 0 = CHR ''*'' \<and>
           (\<forall>i. 1 \<le> i \<and> i < length p \<longrightarrow> c ! i = ?sym i)"
  proof (intro exI[of _ ?c] conjI allI impI)
    show "notes_to_contour p = Some ?c" by (rule eq)
    show "length ?c = length p" by (rule len)
    show "?c ! 0 = CHR ''*''" by simp
    fix i assume "1 \<le> i \<and> i < length p"
    then show "?c ! i = ?sym i" using nth by blast
  qed
next
  assume "py_max note_on_count tracks = Inr t \<and> 2 \<le> length (track_notes t)"
  then show "midi_to_contour (Inr tracks) = notes_to_contour (track_notes t)"
    by (simp add: midi_to_contour_tracks)
next
  show "notes_to_contour [60, 62, 64, 63 :: int] = Some ''*UUD''"
    by (simp add: notes_to_contour_def contour_append_def upt_rec)
qed

theorem contour_encoder_spec_witness:
  "2 \<le> length [60, 62, 64, 63 :: int] \<and>
   notes_to_contour [60, 62, 64, 63 :: int] = Some ''*UUD'' \<and>
   py_max note_on_count [[note_on 60 64, note_off 60 0, note_on 62 64]] =
     Inr [note_on 60 64, note_off 60 0, note_on 62 64] \<and>
   2 \<le> length (track_notes [note_on 60 64, note_off 60 0, note_on 62 64]) \<and>
   midi_to_contour (Inr [[note_on 60 64, note_off 60 0, note_on 62 64]]) = Some ''*U''"
  using contour_encoder_spec [of "[60, 62, 64, 63 :: int]"
      "[[note_on 60 64, note_off 60 0, note_on 62 64]]" "[note_on 60 64, note_off 60 0, note_on 62 64]"]
  by (simp add: track_notes_def notes_append_def notes_to_contour_def contour_append_def upt_rec)

subsection \<open>The melody track and its notes\<close>

lemma foldl_notes_append:
  "foldl notes_append acc t =
     acc @ map msg_note (filter (\<lambda>m. is_note_on m \<and> velocity m > 0) t)"
proof (induction t arbitrary: acc)
  case Nil
  then show ?case by simp
next
  case (Cons m t)
  then show ?case by (cases m) (simp_all add: notes_append_def)
qed

lemma track_notes_filter:
  "track_notes t = map msg_note (filter (\<lambda>m. is_note_on m \<and> velocity m > 0) t)"
  by (simp add: track_notes_def foldl_notes_append)

lemma max_loop_invariant:
  assumes "i < length pre" "best = pre ! i"
    and "\<forall>j<length pre. key (pre ! j) \<le> key best"
    and "\<forall>j<i. key (pre ! j) < key best"
  shows "\<exists>k<length (pre @ xs). max_loop key best xs = (pre @ xs) ! k \<and>
           (\<forall>j<length (pre @ xs). key ((pre @ xs) ! j) \<le> key ((pre @ xs) ! k)) \<and>
           (\<forall>j<k. key ((pre @ xs) ! j) < key ((pre @ xs) ! k))"
  using assms
proof (induction xs arbitrary: pre best i)
  case Nil
  then show ?case by auto
next
  case (Cons x xs)
  show ?case
  proof (cases "key x > key best")
    case True
    have "\<exists>k<length ((pre @ [x]) @ xs). max_loop key x xs = ((pre @ [x]) @ xs) ! k \<and>
           (\<forall>j<length ((pre @ [x]) @ xs). key (((pre @ [x]) @ xs) ! j) \<le> key (((pre @ [x]) @ xs) ! k)) \<and>
           (\<forall>j<k. key (((pre @ [x]) @ xs) ! j) < key (((pre @ [x]) @ xs) ! k))"
    proof (rule Cons.IH[of "length pre" "pre @ [x]" x])
      show "length pre < length (pre @ [x])" by simp
      show "x = (pre @ [x]) ! length pre" by simp
      show "\<forall>j<length (pre @ [x]). key ((pre @ [x]) ! j) \<le> key x"
        using Cons.prems(3) True by (auto simp: nth_append less_Suc_eq intro: less_imp_le order.trans)
      show "\<forall>j<length pre. key ((pre @ [x]) ! j) < key x"
        using Cons.prems(3) True by (auto simp: nth_append intro: le_less_trans)
    qed
    with True show ?thesis by simp
  next
    case False
    have "\<exists>k<length ((pre @ [x]) @ xs). max_loop key best xs = ((pre @ [x]) @ xs) ! k \<and>
           (\<forall>j<length ((pre @ [x]) @ xs). key (((pre @ [x]) @ xs) ! j) \<le> key (((pre @ [x]) @ xs) ! k)) \<and>
           (\<forall>j<k. key (((pre @ [x]) @ xs) ! j) < key (((pre @ [x]) @ xs) ! k))"
    proof (rule Cons.IH[of i "pre @ [x]" best])
      show "i < length (pre @ [x])" using Cons.prems(1) by simp
      show "best = (pre @ [x]) ! i" using Cons.prems(1,2) by (simp add: nth_append)
      show "\<forall>j<length (pre @ [x]). key ((pre @ [x]) ! j) \<le> key best"
        using Cons.prems(3) False by (auto simp: nth_append less_Suc_eq)
      show "\<forall>j<i. key ((pre @ [x]) ! j) < key best"
        using Cons.prems(1,4) by (auto simp: nth_append)
    qed
    with False show ?thesis by simp
  qed
qed

lemma py_max_first_maximum:
  assumes "xs \<noteq> []"
  shows "\<exists>k<length xs. py_max key xs = Inr (xs ! k) \<and>
           (\<forall>j<length xs. key (xs ! j) \<le> key (xs ! k)) \<and>
           (\<forall>j<k. key (xs ! j) < key (xs ! k))"
proof -
  from assms obtain x rest where xs: "xs = x # rest" by (cases xs) auto
  have "\<exists>k<length ([x] @ rest). max_loop key x rest = ([x] @ rest) ! k \<and>
           (\<forall>j<length ([x] @ rest). key (([x] @ rest) ! j) \<le> key (([x] @ rest) ! k)) \<and>
           (\<forall>j<k. key (([x] @ rest) ! j) < key (([x] @ rest) ! k))"
    by (rule max_loop_invariant[of 0]) simp_all
  with xs show ?thesis by simp
qed

text \<open>
  C8. The melody track is the track with the greatest number of \<open>note_on\<close> messages, the
  first such track in the file's track order when several have that number; the notes taken
  from it are the notes of its \<open>note_on\<close> messages with a strictly positive velocity, in the
  order of the messages, and the contour of the file is the contour of these notes.
\<close>

theorem melody_track_first_maximum:
  "tracks \<noteq> [] \<longrightarrow>
     (\<exists>k<length tracks.
        py_max note_on_count tracks = Inr (tracks ! k) \<and>
        (\<forall>j<length tracks. length (filter is_note_on (tracks ! j)) \<le>
                              length (filter is_note_on (tracks ! k))) \<and>
        (\<forall>j<k. length (filter is_note_on (tracks ! j)) <
                  length (filter is_note_on (tracks ! k))) \<and>
        track_notes (tracks ! k) =
          map msg_note (filter (\<lambda>m. is_note_on m \<and> velocity m > 0) (tracks ! k)) \<and>
        midi_to_contour (Inr tracks) =
          notes_to_contour
            (map msg_note (filter (\<lambda>m. is_note_on m \<and> velocity m > 0) (tracks ! k))))"
proof
  assume "tracks \<noteq> []"
  then obtain k where k: "k < length tracks"
      "py_max note_on_count tracks = Inr (tracks ! k)"
      "\<forall>j<length tracks. note_on_count (tracks ! j) \<le> note_on_count (tracks ! k)"
      "\<forall>j<k. note_on_count (tracks ! j) < note_on_count (tracks ! k)"
    using py_max_first_maximum[of tracks note_on_count] by blast
  have "midi_to_contour (Inr tracks) = notes_to_contour (track_notes (tracks ! k))"
    using k(2) by (simp add: midi_to_contour_tracks)
  with k show "\<exists>k<length tracks.
        py_max note_on_count tracks = Inr (tracks ! k) \<and>
        (\<forall>j<length tracks. length (filter is_note_on (tracks ! j)) \<le>
                              length (filter is_note_on (tracks ! k))) \<and>
        (\<forall>j<k. length (filter is_note_on (tracks ! j)) <
                  length (filter is_note_on (tracks ! k))) \<and>
        track_notes (tracks ! k) =
          map msg_note (filter (\<lambda>m. is_note_on m \<and> velocity m > 0) (tracks ! k)) \<and>
        midi_to_contour (Inr tracks) =
          notes_to_contour
            (map msg_note (filter (\<lambda>m. is_note_on m \<and> velocity m > 0) (tracks ! k)))"
    by (intro exI[of _ k]) (simp add: track_notes_filter note_on_count_def)
qed

text \<open>
  Three tracks of 5, 3 and 4 messages, of which 1, 3 and 3 are \<open>note_on\<close> messages: the
  second is taken (not the longest, and not the later track of the same count); its
  \<open>note_on\<close> of velocity 0 counts for the choice and gives no note.
\<close>

theorem melody_track_first_maximum_witness:
  "[[other_msg, other_msg, other_msg, other_msg, note_on 50 64],
    [note_on 60 64, note_on 60 0, note_on 64 64],
    [note_on 70 64, note_on 72 64, note_on 71 64, note_off 71 0]] \<noteq> [] \<and>
   py_max note_on_count
     [[other_msg, other_msg, other_msg, other_msg, note_on 50 64],
      [note_on 60 64, note_on 60 0, note_on 64 64],
      [note_on 70 64, note_on 72 64, note_on 71 64, note_off 71 0]]
     = Inr [note_on 60 64, note_on 60 0, note_on 64 64] \<and>
   track_notes [note_on 60 64, note_on 60 0, note_on 64 64] = [60, 64] \<and>
   midi_to_contour (Inr
     [[other_msg, other_msg, other_msg, other_msg, note_on 50 64],
      [note_on 60 64, note_on 60 0, note_on 64 64],
      [note_on 70 64, note_on 72 64, note_on 71 64, note_off 71 0]])
     = Some ''*U''"
proof -
  let ?t1 = "[other_msg, other_msg, other_msg, other_msg, note_on 50 64]"
  let ?t2 = "[note_on 60 64, note_on 60 0, note_on 64 64]"
  let ?t3 = "[note_on 70 64, note_on 72 64, note_on 71 64, note_off 71 0]"
  let ?ts = "[?t1, ?t2, ?t3]"
  have ne: "?ts \<noteq> []" by simp
  from melody_track_first_maximum[of ?ts] ne obtain k where k: "k < length ?ts"
      "py_max note_on_count ?ts = Inr (?ts ! k)"
      "\<forall>j<length ?ts. length (filter is_note_on (?ts ! j)) \<le>
                           length (filter is_note_on (?ts ! k))"
      "\<forall>j<k. length (filter is_note_on (?ts ! j)) < length (filter is_note_on (?ts ! k))"
      "track_notes (?ts ! k) =
         map msg_note (filter (\<lambda>m. is_note_on m \<and> velocity m > 0) (?ts ! k))"
      "midi_to_contour (Inr ?ts) =
         notes_to_contour (map msg_note (filter (\<lambda>m. is_note_on m \<and> velocity m > 0) (?ts ! k)))"
    by blast
  have cnt: "py_max note_on_count ?ts = Inr ?t2"
    by (simp add: note_on_count_def)
  with k(2) have tk: "?ts ! k = ?t2" by simp
  from k(5) have "track_notes ?t2 = [60, 64]"
    by (simp only: tk) simp
  moreover from k(6) have "midi_to_contour (Inr ?ts) = Some ''*U''"
    by (simp only: tk) (simp add: notes_to_contour_def contour_append_def)
  moreover note cnt
  ultimately show ?thesis using ne by simp
qed

subsection \<open>Sequences with fewer than two observations\<close>

text \<open>
  C7. A pitch sequence with fewer than 2 observations gives no contour: the encoder, the
  symbolic extractor and the audio extractor (whatever the conversion from Hz) all return
  \<open>None\<close> (the value by which the source reports the failure; no exception leaves either
  extractor), never an empty string; the single note 60 gives \<open>None\<close>.
\<close>

theorem short_sequence_no_contour:
  "(length (notes :: 'a::linorder list) < 2 \<longrightarrow> notes_to_contour notes = None) \<and>
         notes_to_contour notes \<noteq> Some [] \<and>
         (py_max note_on_count tracks = Inr t \<and> length (track_notes t) < 2 \<longrightarrow>
            midi_to_contour_body (Inr tracks) = Inr None \<and> midi_to_contour (Inr tracks) = None) \<and>
         (length (audio_notes hz_to_midi frames) < 2 \<longrightarrow>
            audio_to_contour_body hz_to_midi (decoded frames) = Inr None \<and>
            audio_to_contour hz_to_midi (decoded frames) = None) \<and>
         notes_to_contour [60 :: int] = None"
proof (intro conjI impI)
  show "notes_to_contour notes = None" if "length notes < 2"
    using that by (simp add: notes_to_contour_def)
  show "notes_to_contour notes \<noteq> Some []"
    by (simp add: notes_to_contour_def foldl_contour_append)
  show "midi_to_contour_body (Inr tracks) = Inr None"
    if "py_max note_on_count tracks = Inr t \<and> length (track_notes t) < 2"
    using that by (simp add: midi_to_contour_body_def)
  show "midi_to_contour (Inr tracks) = None"
    if "py_max note_on_count tracks = Inr t \<and> length (track_notes t) < 2"
    using that by (simp add: midi_to_contour_tracks notes_to_contour_def)
  show "audio_to_contour_body hz_to_midi (decoded frames) = Inr None"
    if "length (audio_notes hz_to_midi frames) < 2"
    using that by (simp add: audio_to_contour_body_def notes_to_contour_def)
  show "audio_to_contour hz_to_midi (decoded frames) = None"
    if "length (audio_notes hz_to_midi frames) < 2"
    using that by (simp add: audio_to_contour_def audio_to_contour_body_def notes_to_contour_def)
  show "notes_to_contour [60 :: int] = None"
    by (simp add: notes_to_contour_def)
qed

theorem short_sequence_no_contour_witness:
  "length [60 :: int] < 2 \<and> notes_to_contour [60 :: int] = None \<and>
   py_max note_on_count [[note_on 60 64, note_off 60 0]] = Inr [note_on 60 64, note_off 60 0] \<and>
   length (track_notes [note_on 60 64, note_off 60 0]) < 2 \<and>
   midi_to_contour (Inr [[note_on 60 64, note_off 60 0]]) = None \<and>
   length (audio_notes (\<lambda>f. 12 * (log 2 f - log 2 440) + 69) [440, 0, 440]) < 2 \<and>
   audio_to_contour (\<lambda>f. 12 * (log 2 f - log 2 440) + 69) (decoded [440, 0, 440]) = None"
proof -
  have a: "length [60 :: int] < 2" by simp
  have b: "py_max note_on_count [[note_on 60 64, note_off 60 0]] =
             Inr [note_on 60 64, note_off 60 0] \<and>
           length (track_notes [note_on 60 64, note_off 60 0]) < 2"
    by (simp add: track_notes_def notes_append_def)
  have c: "length (audio_notes (\<lambda>f. 12 * (log 2 f - log 2 440) + 69) [440, 0, 440]) < 2"
    by (simp add: audio_notes_def frame_step_def)
  from short_sequence_no_contour[of "[60 :: int]" "[[note_on 60 64, note_off 60 0]]"
      "[note_on 60 64, note_off 60 0]" "\<lambda>f. 12 * (log 2 f - log 2 440) + 69" "[440, 0, 440]"]
    a b c
  show ?thesis by simp
qed

subsection \<open>Segmentation of the frame pitches\<close>

lemma audio_to_contour_decoded:
  "audio_to_contour hz_to_midi (decoded frames) = notes_to_contour (audio_notes hz_to_midi frames)"
  by (simp add: audio_to_contour_def audio_to_contour_body_def)

lemma audio_notes_snoc:
  "audio_notes hz_to_midi (frames @ [pitch]) =
     frame_step hz_to_midi (audio_notes hz_to_midi frames) pitch"
  by (simp add: audio_notes_def)

lemma audio_notes_gaps:
  "Suc i < length (audio_notes hz_to_midi frames) \<Longrightarrow>
     \<bar>audio_notes hz_to_midi frames ! Suc i - audio_notes hz_to_midi frames ! i\<bar> > 1 / 2"
proof (induction frames arbitrary: i rule: rev_induct)
  case Nil
  then show ?case by (simp add: audio_notes_def)
next
  case (snoc pitch frames)
  let ?ns = "audio_notes hz_to_midi frames"
  show ?case
  proof (cases "pitch > 0 \<and> (?ns = [] \<or> \<bar>hz_to_midi pitch - last ?ns\<bar> > 1 / 2)")
    case False
    then have "audio_notes hz_to_midi (frames @ [pitch]) = ?ns"
      by (auto simp: audio_notes_snoc frame_step_def)
    with snoc show ?thesis by simp
  next
    case True
    then have eq: "audio_notes hz_to_midi (frames @ [pitch]) = ?ns @ [hz_to_midi pitch]"
      by (auto simp: audio_notes_snoc frame_step_def)
    show ?thesis
    proof (cases "Suc i < length ?ns")
      case True
      with snoc.IH[of i] eq show ?thesis by (simp add: nth_append)
    next
      case False
      with snoc.prems eq have i: "Suc i = length ?ns" by simp
      then have ne: "?ns \<noteq> []" by auto
      from i have "length ?ns - 1 = i" by simp
      with last_conv_nth[OF ne] have "last ?ns = ?ns ! i" by simp
      with True ne i eq show ?thesis by (simp add: nth_append)
    qed
  qed
qed

text \<open>
  Where every frame has a pitch, the loop is a loop over the converted pitches alone.
\<close>

lemma foldl_frame_step_pitched:
  "\<forall>f \<in> set frames. f > 0 \<Longrightarrow>
     foldl (frame_step hz_to_midi) acc frames =
       foldl (\<lambda>notes m. if notes = [] \<or> \<bar>m - last notes\<bar> > 1 / 2 then notes @ [m] else notes)
         acc (map hz_to_midi frames)"
  by (induction frames arbitrary: acc) (simp_all add: frame_step_def)

lemma audio_notes_pitched:
  "\<forall>f \<in> set frames. f > 0 \<Longrightarrow>
     audio_notes hz_to_midi frames =
       foldl (\<lambda>notes m. if notes = [] \<or> \<bar>m - last notes\<bar> > 1 / 2 then notes @ [m] else notes)
         [] (map hz_to_midi frames)"
  by (simp add: audio_notes_def foldl_frame_step_pitched)

text \<open>
  The exact conversion \<open>12 * (log2 f - log2 440) + 69\<close> is one conversion among all; the
  frequency \<open>440 * 2 ^ ((m - 69) / 12)\<close> has the pitch \<open>m\<close> under it.
\<close>

lemma exact_conversion_inverse:
  "12 * (log 2 (440 * 2 powr ((m - 69) / 12)) - log 2 440) + 69 = m"
proof -
  have "log 2 (440 * 2 powr ((m - 69) / 12)) = log 2 440 + log 2 (2 powr ((m - 69) / 12))"
    by (rule log_mult_pos) simp_all
  also have "log 2 (2 powr ((m - 69) / 12)) = (m - 69) / 12"
    by simp
  finally show ?thesis
    by (simp add: field_simps)
qed

lemma log2_octaves:
  "log 2 880 = 1 + log 2 440"
  "log 2 220 = log 2 440 - 1"
proof -
  have "log 2 (2 * 440) = log 2 2 + log 2 440"
    by (rule log_mult_pos) simp_all
  then show "log 2 880 = 1 + log 2 440" by simp
  have "log 2 (2 * 220) = log 2 2 + log 2 220"
    by (rule log_mult_pos) simp_all
  then show "log 2 220 = log 2 440 - 1" by simp
qed

lemma exact_conversion_octaves:
  "12 * (log 2 880 - log 2 440) + 69 = (81 :: real)"
  "12 * (log 2 220 - log 2 440) + 69 = (57 :: real)"
proof -
  have "log 2 (2 * 440) = log 2 2 + log 2 440"
    by (rule log_mult_pos) simp_all
  then show "12 * (log 2 880 - log 2 440) + 69 = (81 :: real)" by simp
  have "log 2 (2 * 220) = log 2 2 + log 2 220"
    by (rule log_mult_pos) simp_all
  then show "12 * (log 2 220 - log 2 440) + 69 = (57 :: real)" by simp
qed

text \<open>
  C3. At each frame that has a pitch, the pitch is appended to the notes kept so far
  exactly when none is kept yet or it differs from the last kept note by strictly more
  than 0.5 semitone; a frame without a pitch adds nothing. This holds whatever the
  conversion from Hz computes. Frames whose pitches are 60.0, 60.2, 64.0, 63.9, 63.8 leave
  the notes 60.0 and 64.0 and give the contour \<open>*U\<close>.
\<close>

theorem segmentation_keeps_distinct_pitches:
  "audio_notes hz_to_midi (frames @ [pitch]) =
     (if pitch > 0 \<and> (audio_notes hz_to_midi frames = [] \<or>
                        \<bar>hz_to_midi pitch - last (audio_notes hz_to_midi frames)\<bar> > 1 / 2)
      then audio_notes hz_to_midi frames @ [hz_to_midi pitch]
      else audio_notes hz_to_midi frames) \<and>
   ((\<forall>f \<in> set pitched. f > 0) \<and> map hz_to_midi pitched = [60.0, 60.2, 64.0, 63.9, 63.8] \<longrightarrow>
      audio_notes hz_to_midi pitched = [60.0, 64.0] \<and>
      audio_to_contour hz_to_midi (decoded pitched) = Some ''*U'')"
proof (intro conjI impI)
  show "audio_notes hz_to_midi (frames @ [pitch]) =
     (if pitch > 0 \<and> (audio_notes hz_to_midi frames = [] \<or>
                        \<bar>hz_to_midi pitch - last (audio_notes hz_to_midi frames)\<bar> > 1 / 2)
      then audio_notes hz_to_midi frames @ [hz_to_midi pitch]
      else audio_notes hz_to_midi frames)"
    by (simp add: audio_notes_snoc frame_step_def)
next
  assume h: "(\<forall>f \<in> set pitched. f > 0) \<and>
             map hz_to_midi pitched = [60.0, 60.2, 64.0, 63.9, 63.8]"
  then have pos: "\<forall>f \<in> set pitched. f > 0"
    and conv: "map hz_to_midi pitched = [60.0, 60.2, 64.0, 63.9, 63.8]"
    by blast+
  from pos have "audio_notes hz_to_midi pitched =
       foldl (\<lambda>notes m. if notes = [] \<or> \<bar>m - last notes\<bar> > 1 / 2 then notes @ [m] else notes)
         [] (map hz_to_midi pitched)"
    by (rule audio_notes_pitched)
  then have "audio_notes hz_to_midi pitched =
       foldl (\<lambda>notes m. if notes = [] \<or> \<bar>m - last notes\<bar> > 1 / 2 then notes @ [m] else notes)
         [] [60.0, 60.2, 64.0, 63.9, 63.8]"
    by (simp only: conv)
  then show kept: "audio_notes hz_to_midi pitched = [60.0, 64.0]"
    by simp
  show "audio_to_contour hz_to_midi (decoded pitched) = Some ''*U''"
    by (simp only: audio_to_contour_decoded kept)
       (simp add: notes_to_contour_def contour_append_def)
qed

text \<open>
  Under the exact conversion: the five frames of the example; and, with the note of 440 Hz
  (69) kept, a further frame at 440 Hz or a frame without a pitch is dropped, a frame at
  880 Hz (81) is kept.
\<close>

theorem segmentation_keeps_distinct_pitches_witness:
  "audio_notes (\<lambda>f. 12 * (log 2 f - log 2 440) + 69)
     (map (\<lambda>m. 440 * 2 powr ((m - 69) / 12)) [60.0, 60.2, 64.0, 63.9, 63.8]) = [60.0, 64.0] \<and>
   audio_to_contour (\<lambda>f. 12 * (log 2 f - log 2 440) + 69)
     (decoded (map (\<lambda>m. 440 * 2 powr ((m - 69) / 12)) [60.0, 60.2, 64.0, 63.9, 63.8]))
     = Some ''*U'' \<and>
   audio_notes (\<lambda>f. 12 * (log 2 f - log 2 440) + 69) ([440] @ [440]) = [69] \<and>
   audio_notes (\<lambda>f. 12 * (log 2 f - log 2 440) + 69) ([440] @ [0]) = [69] \<and>
   audio_notes (\<lambda>f. 12 * (log 2 f - log 2 440) + 69) ([440] @ [880]) = [69, 81]"
proof -
  let ?hz = "\<lambda>f :: real. 12 * (log 2 f - log 2 440) + 69"
  let ?fs = "map (\<lambda>m :: real. 440 * 2 powr ((m - 69) / 12)) [60.0, 60.2, 64.0, 63.9, 63.8]"
  have pos: "\<forall>f \<in> set ?fs. f > 0" by simp
  have conv: "map ?hz ?fs = [60.0, 60.2, 64.0, 63.9, 63.8]"
    by (simp only: list.map exact_conversion_inverse)
  from segmentation_keeps_distinct_pitches[of ?hz "[]" 440 ?fs] pos conv
  have ex: "audio_notes ?hz ?fs = [60.0, 64.0]"
    "audio_to_contour ?hz (decoded ?fs) = Some ''*U''"
    by blast+
  have one: "audio_notes ?hz [440] = [69]"
    by (simp add: audio_notes_def frame_step_def)
  from segmentation_keeps_distinct_pitches[of ?hz "[440]" 440 ?fs]
  have a: "audio_notes ?hz ([440] @ [440]) = [69]"
    by (simp only: one) simp
  from segmentation_keeps_distinct_pitches[of ?hz "[440]" 0 ?fs]
  have b: "audio_notes ?hz ([440] @ [0]) = [69]"
    by (simp only: one) simp
  from segmentation_keeps_distinct_pitches[of ?hz "[440]" 880 ?fs]
  have c: "audio_notes ?hz ([440] @ [880]) = [69, 81]"
    by (simp only: one exact_conversion_octaves) simp
  from ex a b c show ?thesis by (intro conjI)
qed

subsection \<open>Exact comparison in the encoder\<close>

lemma notes_to_contour_Some:
  "2 \<le> length p \<Longrightarrow>
     notes_to_contour p =
       Some (CHR ''*'' # map (\<lambda>i. if p ! i > p ! (i - 1) then CHR ''U''
                                  else if p ! i < p ! (i - 1) then CHR ''D'' else CHR ''R'')
                          [1..<length p])"
  by (simp add: notes_to_contour_def foldl_contour_append)

lemma notes_to_contour_SomeD:
  "notes_to_contour p = Some c \<Longrightarrow> 2 \<le> length p"
  by (simp add: notes_to_contour_def split: if_splits)

lemma star_map_nth:
  assumes "1 \<le> i" "i < n"
  shows "(CHR ''*'' # map f [1..<n]) ! i = f i"
proof -
  from assms(1) obtain k where k: "i = Suc k" by (cases i) auto
  with assms(2) have "k < length [1..<n]" by simp
  then have "map f [1..<n] ! k = f (1 + k)"
    by (simp only: nth_map nth_upt length_upt)
  with k show ?thesis by simp
qed

text \<open>
  C4, as the code has it. The encoder compares pitches exactly, fractional ones too: the
  symbol at \<open>i\<close> is \<open>R\<close> if and only if \<open>p[i] = p[i-1]\<close>, so two consecutive pitches that
  differ by at most 0.5 semitone without being equal give \<open>U\<close> or \<open>D\<close>.
\<close>

theorem encoder_compares_exactly:
  "2 \<le> length (p :: real list) \<longrightarrow>
     (\<exists>c. notes_to_contour p = Some c \<and>
        (\<forall>i. 1 \<le> i \<and> i < length p \<longrightarrow>
           (c ! i = CHR ''R'') = (p ! i = p ! (i - 1)) \<and>
           (p ! i \<noteq> p ! (i - 1) \<and> \<bar>p ! i - p ! (i - 1)\<bar> \<le> 1 / 2 \<longrightarrow>
              c ! i = CHR ''U'' \<or> c ! i = CHR ''D'')))"
proof
  let ?sym = "\<lambda>i. if p ! i > p ! (i - 1) then CHR ''U''
                    else if p ! i < p ! (i - 1) then CHR ''D'' else CHR ''R''"
  let ?c = "CHR ''*'' # map ?sym [1..<length p]"
  assume two: "2 \<le> length p"
  show "\<exists>c. notes_to_contour p = Some c \<and>
        (\<forall>i. 1 \<le> i \<and> i < length p \<longrightarrow>
           (c ! i = CHR ''R'') = (p ! i = p ! (i - 1)) \<and>
           (p ! i \<noteq> p ! (i - 1) \<and> \<bar>p ! i - p ! (i - 1)\<bar> \<le> 1 / 2 \<longrightarrow>
              c ! i = CHR ''U'' \<or> c ! i = CHR ''D''))"
  proof (intro exI[of _ ?c] conjI allI impI)
    show "notes_to_contour p = Some ?c"
      using two by (rule notes_to_contour_Some)
  next
    fix i assume "1 \<le> i \<and> i < length p"
    then have "?c ! i = ?sym i" by (simp only: star_map_nth)
    then show "(?c ! i = CHR ''R'') = (p ! i = p ! (i - 1))" by auto
  next
    fix i assume "1 \<le> i \<and> i < length p"
      and "p ! i \<noteq> p ! (i - 1) \<and> \<bar>p ! i - p ! (i - 1)\<bar> \<le> 1 / 2"
    moreover from calculation(1) have "?c ! i = ?sym i" by (simp only: star_map_nth)
    ultimately show "?c ! i = CHR ''U'' \<or> ?c ! i = CHR ''D''" by auto
  qed
qed

theorem encoder_compares_exactly_witness:
  "2 \<le> length [60, 60.2, 60.2 :: real] \<and>
   notes_to_contour [60, 60.2, 60.2 :: real] = Some ''*UR''"
proof -
  have "notes_to_contour [60, 60.2, 60.2 :: real] = Some ''*UR''"
    by (simp add: notes_to_contour_def contour_append_def upt_rec)
  with encoder_compares_exactly[of "[60, 60.2, 60.2]"] show ?thesis by simp
qed

text \<open>
  The pitches 60.0 and 60.2 differ by less than 0.5 semitone, and the symbol between them
  is \<open>U\<close>, not \<open>R\<close>.
\<close>

theorem encoder_tolerance_counterexample:
  "\<bar>(60.2 :: real) - 60.0\<bar> \<le> 0.5 \<and>
   notes_to_contour [60.0, 60.2 :: real] = Some ''*U'' \<and>
   ''*U'' ! 1 \<noteq> CHR ''R''"
  by (simp add: notes_to_contour_def contour_append_def)

subsection \<open>Contours from audio\<close>

text \<open>
  C10. A contour produced from audio has no \<open>R\<close>, whatever the conversion from Hz: it
  starts with \<open>*\<close> and every later symbol is \<open>U\<close> or \<open>D\<close>, since two consecutive kept notes
  differ by more than 0.5.
\<close>

theorem audio_contour_has_no_repeat:
  "audio_to_contour hz_to_midi file = Some c \<longrightarrow>
     CHR ''R'' \<notin> set c \<and> c ! 0 = CHR ''*'' \<and>
     (\<forall>i. 1 \<le> i \<and> i < length c \<longrightarrow> c ! i = CHR ''U'' \<or> c ! i = CHR ''D'')"
proof
  assume some: "audio_to_contour hz_to_midi file = Some c"
  then obtain frames where dec: "file = decoded frames"
    by (cases "file") (simp_all add: audio_to_contour_def audio_to_contour_body_def)
  let ?p = "audio_notes hz_to_midi frames"
  let ?sym = "\<lambda>i. if ?p ! i > ?p ! (i - 1) then CHR ''U''
                    else if ?p ! i < ?p ! (i - 1) then CHR ''D'' else CHR ''R''"
  from some dec have enc: "notes_to_contour ?p = Some c"
    by (simp add: audio_to_contour_decoded)
  then have two: "2 \<le> length ?p" by (rule notes_to_contour_SomeD)
  with enc have c: "c = CHR ''*'' # map ?sym [1..<length ?p]"
    by (simp add: notes_to_contour_Some)
  have ud: "?sym i = CHR ''U'' \<or> ?sym i = CHR ''D''" if "1 \<le> i" "i < length ?p" for i
  proof -
    from that obtain k where k: "i = Suc k" by (cases i) auto
    with that(2) have "Suc k < length ?p" by simp
    then have "\<bar>?p ! Suc k - ?p ! k\<bar> > 1 / 2"
      by (rule audio_notes_gaps)
    with k show ?thesis by auto
  qed
  have len: "length c = length ?p" using two c by simp
  have nth: "c ! i = ?sym i" if "1 \<le> i" "i < length ?p" for i
    using that by (simp only: c star_map_nth)
  have "CHR ''R'' \<notin> set c"
  proof
    assume "CHR ''R'' \<in> set c"
    then obtain i where i: "i < length c" "c ! i = CHR ''R''"
      by (auto simp: in_set_conv_nth)
    show False
    proof (cases i)
      case 0
      with i(2) c show False by simp
    next
      case (Suc k)
      with i(1) len have "1 \<le> i" "i < length ?p" by simp_all
      with nth[of i] ud[of i] i(2) show False by auto
    qed
  qed
  moreover have "c ! 0 = CHR ''*''" using c by simp
  moreover have "\<forall>i. 1 \<le> i \<and> i < length c \<longrightarrow> c ! i = CHR ''U'' \<or> c ! i = CHR ''D''"
    using nth ud len by auto
  ultimately show "CHR ''R'' \<notin> set c \<and> c ! 0 = CHR ''*'' \<and>
     (\<forall>i. 1 \<le> i \<and> i < length c \<longrightarrow> c ! i = CHR ''U'' \<or> c ! i = CHR ''D'')"
    by blast
qed

text \<open>
  Under the exact conversion, frames at 440, 440, 880 and 220 Hz keep the notes 69, 81
  and 57.
\<close>

theorem audio_contour_has_no_repeat_witness:
  "audio_to_contour (\<lambda>f. 12 * (log 2 f - log 2 440) + 69) (decoded [440, 440, 880, 220])
     = Some ''*UD'' \<and>
   CHR ''R'' \<notin> set ''*UD''"
proof -
  let ?hz = "\<lambda>f :: real. 12 * (log 2 f - log 2 440) + 69"
  have "audio_notes ?hz [440, 440, 880, 220] = [69, 81, 57]"
    by (simp add: audio_notes_def frame_step_def log2_octaves)
  then have "audio_to_contour ?hz (decoded [440, 440, 880, 220]) = Some ''*UD''"
    by (simp only: audio_to_contour_decoded)
       (simp add: notes_to_contour_def contour_append_def upt_rec)
  with audio_contour_has_no_repeat[of ?hz "decoded [440, 440, 880, 220]" "''*UD''"]
  show ?thesis by simp
qed

subsection \<open>Escaped patterns and substring matching\<close>

lemma literal_pattern_plain:
  "c \<notin> set metachars \<Longrightarrow>
     literal_pattern (c # cs) = map_option ((#) c) (literal_pattern cs)"
  by (cases cs) (auto simp: metachars_def)

lemma literal_pattern_escaped:
  "\<not> alnum d \<Longrightarrow>
     literal_pattern (backslash # d # cs) = map_option ((#) d) (literal_pattern cs)"
  by simp

lemma special_not_alnum: "c \<in> set special_chars \<Longrightarrow> \<not> alnum c"
  by (auto simp: special_chars_def alnum_def backslash_def)

lemma metachars_special: "c \<in> set metachars \<Longrightarrow> c \<in> set special_chars"
  by (auto simp: special_chars_def metachars_def)

lemma literal_pattern_re_escape: "literal_pattern (re_escape q) = Some q"
proof (induction q)
  case Nil
  then show ?case by (simp add: re_escape_def)
next
  case (Cons c q)
  have step: "re_escape (c # q) =
      (if c \<in> set special_chars then [backslash, c] else [c]) @ re_escape q"
    by (simp add: re_escape_def)
  show ?case
  proof (cases "c \<in> set special_chars")
    case True
    then have "\<not> alnum c" by (rule special_not_alnum)
    with True Cons step show ?thesis
      by (simp add: literal_pattern_escaped)
  next
    case False
    then have "c \<notin> set metachars" using metachars_special by blast
    with False Cons step show ?thesis
      by (simp add: literal_pattern_plain)
  qed
qed

lemma match_here_iff:
  "match_here lit subject =
     (\<exists>suf. map ascii_lower subject = map ascii_lower lit @ suf)"
proof (induction lit subject rule: match_here.induct)
  case (1 subject)
  then show ?case by simp
next
  case (2 p ps)
  then show ?case by simp
next
  case (3 p ps c cs)
  then show ?case by auto
qed

lemma match_anywhere_iff:
  "match_anywhere lit subject =
     (\<exists>pre suf. map ascii_lower subject = pre @ map ascii_lower lit @ suf)"
proof (induction subject)
  case Nil
  then show ?case by (auto simp: match_here_iff)
next
  case (Cons c cs)
  show ?case
  proof
    assume "match_anywhere lit (c # cs)"
    then consider "match_here lit (c # cs)" | "match_anywhere lit cs" by auto
    then show "\<exists>pre suf. map ascii_lower (c # cs) = pre @ map ascii_lower lit @ suf"
    proof cases
      case 1
      then obtain suf where "map ascii_lower (c # cs) = map ascii_lower lit @ suf"
        by (auto simp: match_here_iff)
      then have "map ascii_lower (c # cs) = [] @ map ascii_lower lit @ suf" by simp
      then show ?thesis by blast
    next
      case 2
      with Cons obtain pre suf where "map ascii_lower cs = pre @ map ascii_lower lit @ suf"
        by auto
      then have "map ascii_lower (c # cs) = (ascii_lower c # pre) @ map ascii_lower lit @ suf"
        by simp
      then show ?thesis by blast
    qed
  next
    assume "\<exists>pre suf. map ascii_lower (c # cs) = pre @ map ascii_lower lit @ suf"
    then obtain pre suf where eq: "map ascii_lower (c # cs) = pre @ map ascii_lower lit @ suf"
      by blast
    show "match_anywhere lit (c # cs)"
    proof (cases pre)
      case Nil
      with eq have "match_here lit (c # cs)" by (auto simp: match_here_iff)
      then show ?thesis by simp
    next
      case (Cons x pre')
      with eq have "map ascii_lower cs = pre' @ map ascii_lower lit @ suf" by simp
      with Cons.IH have "match_anywhere lit cs" by blast
      then show ?thesis by simp
    qed
  qed
qed

lemma find_regex_re_escape:
  "find_regex corpus (re_escape q) n =
     Some (cursor_limit n (filter (\<lambda>doc. match_anywhere q (melodic_contour doc)) corpus))"
  by (simp add: find_regex_def literal_pattern_re_escape)

lemma search_by_parsons_eq:
  "search_by_parsons corpus q =
     Some \<lparr>query = q,
           results = map serialize_doc
             (take 20 (filter (\<lambda>doc. match_anywhere q (melodic_contour doc)) corpus))\<rparr>"
  by (simp add: search_by_parsons_def find_regex_re_escape cursor_limit_def)

lemma notes_to_contour_nonempty: "notes_to_contour p = Some c \<Longrightarrow> c \<noteq> []"
  by (auto simp: notes_to_contour_def foldl_contour_append split: if_splits)

lemma audio_to_contour_nonempty: "audio_to_contour hz_to_midi audio = Some c \<Longrightarrow> c \<noteq> []"
proof -
  assume some: "audio_to_contour hz_to_midi audio = Some c"
  then obtain frames where "audio = decoded frames"
    by (cases audio) (simp_all add: audio_to_contour_def audio_to_contour_body_def)
  with some have "notes_to_contour (audio_notes hz_to_midi frames) = Some c"
    by (simp add: audio_to_contour_decoded)
  then show "c \<noteq> []" by (rule notes_to_contour_nonempty)
qed

lemma search_by_audio_eq:
  "search_by_audio hz_to_midi can_write corpus up =
     (if \<not> can_write (path_join ''temp_audio'' (filename up)) then Some (Inl OSError)
      else
        (case audio_to_contour hz_to_midi (written_file (contents up)) of
           None \<Rightarrow> Some (Inr \<lparr>generated_contour = None, audio_results = []\<rparr>)
         | Some contour \<Rightarrow>
             Some (Inr \<lparr>generated_contour = Some contour,
                        audio_results = map serialize_doc
                          (take 10 (filter (\<lambda>doc. match_anywhere contour (melodic_contour doc))
                                      corpus))\<rparr>)))"
proof (cases "audio_to_contour hz_to_midi (written_file (contents up))")
  case None
  then show ?thesis by (simp add: search_by_audio_def)
next
  case (Some contour)
  then have "contour \<noteq> []" by (rule audio_to_contour_nonempty)
  with Some show ?thesis
    by (simp add: search_by_audio_def find_regex_re_escape cursor_limit_def)
qed

lemma ascii_lower_upper:
  "map ascii_lower ''ABCDEFGHIJKLMNOPQRSTUVWXYZ'' = ''abcdefghijklmnopqrstuvwxyz''"
  by (simp add: ascii_lower_def)

lemma map_of_zip_None:
  "c \<notin> set xs \<Longrightarrow> map_of (zip xs ys) c = None"
  by (induction xs arbitrary: ys) (auto split: list.splits simp: zip_Cons1)

lemma ascii_lower_other:
  "c \<notin> set ''ABCDEFGHIJKLMNOPQRSTUVWXYZ'' \<Longrightarrow> ascii_lower c = c"
proof -
  assume "c \<notin> set ''ABCDEFGHIJKLMNOPQRSTUVWXYZ''"
  then have "map_of (zip ''ABCDEFGHIJKLMNOPQRSTUVWXYZ'' ''abcdefghijklmnopqrstuvwxyz'') c = None"
    by (rule map_of_zip_None)
  then show ?thesis by (simp only: ascii_lower_def option.case)
qed

lemma ascii_lower_alphabet: "c \<in> set ''*UDR'' \<Longrightarrow> ascii_lower c \<in> set ''*udr''"
proof -
  assume "c \<in> set ''*UDR''"
  then consider "c = CHR ''*''" | "c = CHR ''U''" | "c = CHR ''D''" | "c = CHR ''R''"
    by auto
  then show ?thesis
    by cases (simp_all add: ascii_lower_def)
qed

lemma match_anywhere_chars:
  assumes "match_anywhere lit subject" "c \<in> set lit"
  shows "ascii_lower c \<in> ascii_lower ` set subject"
proof -
  from assms(1) obtain pre suf where
    "map ascii_lower subject = pre @ map ascii_lower lit @ suf"
    unfolding match_anywhere_iff by blast
  then have "set (map ascii_lower subject) = set (pre @ map ascii_lower lit @ suf)"
    by (rule arg_cong)
  moreover from assms(2) have "ascii_lower c \<in> set (pre @ map ascii_lower lit @ suf)"
    by simp
  ultimately have "ascii_lower c \<in> set (map ascii_lower subject)"
    by (rule ssubst)
  then show ?thesis by simp
qed

lemma match_anywhere_empty: "match_anywhere [] subject"
  by (cases subject) simp_all


subsection \<open>Searching the corpus\<close>

text \<open>
  C2. The search for a pattern returns the entries of the corpus whose contour contains
  the pattern as a contiguous substring at any position, letters compared without regard
  to case (each of \<open>A\<close> to \<open>Z\<close> is folded to its lower-case letter, every other character
  is left as it is), in the order of the corpus and cut after \<open>limit\<close> entries (20 in the
  text endpoint; for the store a limit of 0 is no limit). With two entries of contours
  \<open>*UUD\<close> and \<open>*DDU\<close>, the pattern \<open>UD\<close> finds the first only, as does \<open>ud\<close>; \<open>DD\<close> finds
  the second only, as does \<open>dD\<close>; \<open>Z\<close> finds none.
\<close>

theorem contour_search_is_substring_search:
  "(0 < limit \<longrightarrow>
      find_regex corpus (re_escape pattern) limit =
        Some (take limit (filter
          (\<lambda>doc. \<exists>pre suf. map ascii_lower (melodic_contour doc) =
                              pre @ map ascii_lower pattern @ suf) corpus)) \<and>
      (\<forall>found. find_regex corpus (re_escape pattern) limit = Some found \<longrightarrow>
         length found \<le> limit)) \<and>
   map ascii_lower ''ABCDEFGHIJKLMNOPQRSTUVWXYZ'' = ''abcdefghijklmnopqrstuvwxyz'' \<and>
   (c \<notin> set ''ABCDEFGHIJKLMNOPQRSTUVWXYZ'' \<longrightarrow> ascii_lower c = c) \<and>
   search_by_parsons corpus pattern =
     Some \<lparr>query = pattern,
           results = map serialize_doc (take 20 (filter
             (\<lambda>doc. \<exists>pre suf. map ascii_lower (melodic_contour doc) =
                                 pre @ map ascii_lower pattern @ suf) corpus))\<rparr> \<and>
   (0 < limit \<and> melodic_contour d1 = ''*UUD'' \<and> melodic_contour d2 = ''*DDU'' \<longrightarrow>
      find_regex [d1, d2] (re_escape ''UD'') limit = Some [d1] \<and>
      find_regex [d1, d2] (re_escape ''ud'') limit = Some [d1] \<and>
      find_regex [d1, d2] (re_escape ''DD'') limit = Some [d2] \<and>
      find_regex [d1, d2] (re_escape ''dD'') limit = Some [d2] \<and>
      find_regex [d1, d2] (re_escape ''Z'') limit = Some [])"
proof (intro conjI allI impI)
  assume pos: "0 < limit"
  then show "find_regex corpus (re_escape pattern) limit =
     Some (take limit (filter
       (\<lambda>doc. \<exists>pre suf. map ascii_lower (melodic_contour doc) =
                           pre @ map ascii_lower pattern @ suf) corpus))"
    by (simp add: find_regex_re_escape match_anywhere_iff cursor_limit_def)
  show "length found \<le> limit"
    if "find_regex corpus (re_escape pattern) limit = Some found" for found
    using that pos by (auto simp: find_regex_re_escape cursor_limit_def)
next
  show "map ascii_lower ''ABCDEFGHIJKLMNOPQRSTUVWXYZ'' = ''abcdefghijklmnopqrstuvwxyz''"
    by (rule ascii_lower_upper)
  show "ascii_lower c = c" if "c \<notin> set ''ABCDEFGHIJKLMNOPQRSTUVWXYZ''"
    using that by (rule ascii_lower_other)
  show "search_by_parsons corpus pattern =
     Some \<lparr>query = pattern,
           results = map serialize_doc (take 20 (filter
             (\<lambda>doc. \<exists>pre suf. map ascii_lower (melodic_contour doc) =
                                 pre @ map ascii_lower pattern @ suf) corpus))\<rparr>"
    by (simp only: search_by_parsons_eq match_anywhere_iff)
next
  assume h: "0 < limit \<and> melodic_contour d1 = ''*UUD'' \<and> melodic_contour d2 = ''*DDU''"
  then obtain k where k: "limit = Suc k" by (cases limit) auto
  from h k show "find_regex [d1, d2] (re_escape ''UD'') limit = Some [d1]"
    by (simp add: find_regex_re_escape cursor_limit_def ascii_lower_def)
  from h k show "find_regex [d1, d2] (re_escape ''ud'') limit = Some [d1]"
    by (simp add: find_regex_re_escape cursor_limit_def ascii_lower_def)
  from h k show "find_regex [d1, d2] (re_escape ''DD'') limit = Some [d2]"
    by (simp add: find_regex_re_escape cursor_limit_def ascii_lower_def)
  from h k show "find_regex [d1, d2] (re_escape ''dD'') limit = Some [d2]"
    by (simp add: find_regex_re_escape cursor_limit_def ascii_lower_def)
  from h k show "find_regex [d1, d2] (re_escape ''Z'') limit = Some []"
    by (simp add: find_regex_re_escape cursor_limit_def ascii_lower_def)
qed

theorem contour_search_is_substring_search_witness:
  "(0 :: nat) < 20 \<and>
   CHR ''*'' \<notin> set ''ABCDEFGHIJKLMNOPQRSTUVWXYZ'' \<and> ascii_lower (CHR ''*'') = CHR ''*'' \<and>
   find_regex
     [\<lparr>doc_id = ObjectId ''a1'', title = ''Air'', composer = ''Johann Sebastian Bach'',
        melodic_contour = ''*UUD'', lilypond_path = ''air.ly''\<rparr>,
      \<lparr>doc_id = ObjectId ''a2'', title = ''Gigue'', composer = ''Johann Sebastian Bach'',
        melodic_contour = ''*DDU'', lilypond_path = ''gigue.ly''\<rparr>]
     (re_escape ''dD'') 20
   = Some [\<lparr>doc_id = ObjectId ''a2'', title = ''Gigue'', composer = ''Johann Sebastian Bach'',
        melodic_contour = ''*DDU'', lilypond_path = ''gigue.ly''\<rparr>] \<and>
   find_regex
     [\<lparr>doc_id = ObjectId ''a1'', title = ''Air'', composer = ''Johann Sebastian Bach'',
        melodic_contour = ''*UUD'', lilypond_path = ''air.ly''\<rparr>,
      \<lparr>doc_id = ObjectId ''a2'', title = ''Gigue'', composer = ''Johann Sebastian Bach'',
        melodic_contour = ''*DDU'', lilypond_path = ''gigue.ly''\<rparr>]
     (re_escape ''Z'') 20
   = Some []"
  using contour_search_is_substring_search
    [of 20 "[]" "[]" "CHR ''*''"
      "\<lparr>doc_id = ObjectId ''a1'', title = ''Air'', composer = ''Johann Sebastian Bach'',
        melodic_contour = ''*UUD'', lilypond_path = ''air.ly''\<rparr>"
      "\<lparr>doc_id = ObjectId ''a2'', title = ''Gigue'', composer = ''Johann Sebastian Bach'',
        melodic_contour = ''*DDU'', lilypond_path = ''gigue.ly''\<rparr>"]
  by simp

text \<open>
  C5, as the code has it. Every text is accepted as a query and answered without an
  error. A query with a character that is, up to the case of letters, none of \<open>*\<close>, \<open>U\<close>,
  \<open>D\<close>, \<open>R\<close> has no match in a corpus whose contours are over the contour alphabet. The
  empty query matches every entry: it returns the first 20 entries of the corpus.
\<close>

theorem malformed_query_accepted:
  "(\<exists>r. search_by_parsons corpus q = Some r \<and> query r = q) \<and>
   ((\<exists>c \<in> set q. ascii_lower c \<notin> set ''*udr'') \<and>
    (\<forall>doc \<in> set corpus. set (melodic_contour doc) \<subseteq> set ''*UDR'') \<longrightarrow>
      search_by_parsons corpus q = Some \<lparr>query = q, results = []\<rparr>) \<and>
   search_by_parsons corpus [] =
     Some \<lparr>query = [], results = map serialize_doc (take 20 corpus)\<rparr>"
proof (intro conjI impI)
  show "\<exists>r. search_by_parsons corpus q = Some r \<and> query r = q"
    by (simp add: search_by_parsons_eq)
  show "search_by_parsons corpus [] =
     Some \<lparr>query = [], results = map serialize_doc (take 20 corpus)\<rparr>"
    by (simp add: search_by_parsons_eq match_anywhere_empty)
next
  assume h: "(\<exists>c \<in> set q. ascii_lower c \<notin> set ''*udr'') \<and>
    (\<forall>doc \<in> set corpus. set (melodic_contour doc) \<subseteq> set ''*UDR'')"
  then obtain c where c: "c \<in> set q" "ascii_lower c \<notin> set ''*udr''" by blast
  have "\<not> match_anywhere q (melodic_contour doc)" if "doc \<in> set corpus" for doc
  proof
    assume "match_anywhere q (melodic_contour doc)"
    then have "ascii_lower c \<in> ascii_lower ` set (melodic_contour doc)"
      using c(1) by (rule match_anywhere_chars)
    then obtain x where x: "x \<in> set (melodic_contour doc)" "ascii_lower c = ascii_lower x"
      by blast
    from h that have "set (melodic_contour doc) \<subseteq> set ''*UDR''" by blast
    with x(1) have "x \<in> set ''*UDR''" by (rule subsetD[rotated])
    then have "ascii_lower x \<in> set ''*udr''" by (rule ascii_lower_alphabet)
    with x(2) c(2) show False by simp
  qed
  then have "filter (\<lambda>doc. match_anywhere q (melodic_contour doc)) corpus = []"
    by (simp add: filter_empty_conv)
  then show "search_by_parsons corpus q = Some \<lparr>query = q, results = []\<rparr>"
    by (simp add: search_by_parsons_eq)
qed

theorem malformed_query_accepted_witness:
  "ascii_lower (CHR ''Z'') \<notin> set ''*udr'' \<and>
   set ''*UUD'' \<subseteq> set ''*UDR'' \<and>
   search_by_parsons
     [\<lparr>doc_id = ObjectId ''a1'', title = ''Air'', composer = ''Johann Sebastian Bach'',
        melodic_contour = ''*UUD'', lilypond_path = ''air.ly''\<rparr>] ''UZ''
   = Some \<lparr>query = ''UZ'', results = []\<rparr>"
proof -
  have a: "\<exists>c \<in> set ''UZ''. ascii_lower c \<notin> set ''*udr''"
    by (simp add: ascii_lower_def)
  have b: "\<forall>doc \<in> set [\<lparr>doc_id = ObjectId ''a1'', title = ''Air'',
        composer = ''Johann Sebastian Bach'', melodic_contour = ''*UUD'',
        lilypond_path = ''air.ly''\<rparr>]. set (melodic_contour doc) \<subseteq> set ''*UDR''"
    by simp
  from malformed_query_accepted[of
      "[\<lparr>doc_id = ObjectId ''a1'', title = ''Air'', composer = ''Johann Sebastian Bach'',
        melodic_contour = ''*UUD'', lilypond_path = ''air.ly''\<rparr>]" "''UZ''"] a b
  have "search_by_parsons
     [\<lparr>doc_id = ObjectId ''a1'', title = ''Air'', composer = ''Johann Sebastian Bach'',
        melodic_contour = ''*UUD'', lilypond_path = ''air.ly''\<rparr>] ''UZ''
   = Some \<lparr>query = ''UZ'', results = []\<rparr>" by blast
  then show ?thesis by (simp add: ascii_lower_def)
qed

text \<open>
  Against a corpus of the one contour \<open>*UUD\<close>, the empty query and the lower-case query
  \<open>ud\<close> (no character of which is in the contour alphabet) both return the entry.
\<close>

theorem malformed_query_counterexample:
  "search_by_parsons
     [\<lparr>doc_id = ObjectId ''a1'', title = ''Air'', composer = ''Johann Sebastian Bach'',
        melodic_contour = ''*UUD'', lilypond_path = ''air.ly''\<rparr>] []
   = Some \<lparr>query = [],
           results = [\<lparr>doc_id = Str ''a1'', title = ''Air'', composer = ''Johann Sebastian Bach'',
                       melodic_contour = ''*UUD'', lilypond_path = ''air.ly''\<rparr>]\<rparr> \<and>
   set ''ud'' \<inter> set ''*UDR'' = {} \<and>
   search_by_parsons
     [\<lparr>doc_id = ObjectId ''a1'', title = ''Air'', composer = ''Johann Sebastian Bach'',
        melodic_contour = ''*UUD'', lilypond_path = ''air.ly''\<rparr>] ''ud''
   = Some \<lparr>query = ''ud'',
           results = [\<lparr>doc_id = Str ''a1'', title = ''Air'', composer = ''Johann Sebastian Bach'',
                       melodic_contour = ''*UUD'', lilypond_path = ''air.ly''\<rparr>]\<rparr>"
  by (simp add: search_by_parsons_eq serialize_doc_def ascii_lower_def)


subsection \<open>The audio endpoint\<close>




subsection \<open>The result caps\<close>

text \<open>
  C9. The text endpoint returns the first 20 matching entries, so never more than 20; the
  audio endpoint, when it answers, returns the first 10 entries matching the generated
  contour, so never more than 10 (it answers whenever the upload could be written, and
  raises otherwise).
\<close>

theorem result_caps:
  "(\<exists>r. search_by_parsons corpus q = Some r \<and> length (results r) \<le> 20 \<and>
        length (results r) =
          min 20 (length (filter (\<lambda>doc. match_anywhere q (melodic_contour doc)) corpus))) \<and>
   (can_write (path_join ''temp_audio'' (filename up)) \<longrightarrow>
      (\<exists>r. search_by_audio hz_to_midi can_write corpus up = Some (Inr r) \<and>
           length (audio_results r) \<le> 10 \<and>
           (\<forall>contour. audio_to_contour hz_to_midi (written_file (contents up)) = Some contour
              \<longrightarrow> length (audio_results r) =
                   min 10 (length (filter (\<lambda>doc. match_anywhere contour (melodic_contour doc))
                                     corpus))))) \<and>
   (\<not> can_write (path_join ''temp_audio'' (filename up)) \<longrightarrow>
      search_by_audio hz_to_midi can_write corpus up = Some (Inl OSError))"
proof (intro conjI impI)
  show "\<exists>r. search_by_parsons corpus q = Some r \<and> length (results r) \<le> 20 \<and>
        length (results r) =
          min 20 (length (filter (\<lambda>doc. match_anywhere q (melodic_contour doc)) corpus))"
    by (simp add: search_by_parsons_eq min.commute)
  show "\<exists>r. search_by_audio hz_to_midi can_write corpus up = Some (Inr r) \<and>
           length (audio_results r) \<le> 10 \<and>
           (\<forall>contour. audio_to_contour hz_to_midi (written_file (contents up)) = Some contour
              \<longrightarrow> length (audio_results r) =
                   min 10 (length (filter (\<lambda>doc. match_anywhere contour (melodic_contour doc))
                                     corpus)))"
    if "can_write (path_join ''temp_audio'' (filename up))"
    using that
    by (cases "audio_to_contour hz_to_midi (written_file (contents up))")
       (simp_all add: search_by_audio_eq min.commute)
  show "search_by_audio hz_to_midi can_write corpus up = Some (Inl OSError)"
    if "\<not> can_write (path_join ''temp_audio'' (filename up))"
    using that by (simp add: search_by_audio_eq)
qed

text \<open>
  With 21 entries of contour \<open>*UUD\<close> the text query \<open>U\<close> returns 20 of them; with 11 such
  entries the audio query of contour \<open>*U\<close> (frames at 440 and 880 Hz under the exact
  conversion) returns 10.
\<close>

theorem result_caps_witness:
  "(\<exists>r. search_by_parsons
          (replicate 21 \<lparr>doc_id = ObjectId ''a1'', title = ''Air'',
             composer = ''Johann Sebastian Bach'', melodic_contour = ''*UUD'',
             lilypond_path = ''air.ly''\<rparr>) ''U'' = Some r \<and>
        length (results r) = 20) \<and>
   audio_to_contour (\<lambda>f. 12 * (log 2 f - log 2 440) + 69)
     (written_file (audio_bytes [440, 880])) = Some ''*U'' \<and>
   (\<exists>r. search_by_audio (\<lambda>f. 12 * (log 2 f - log 2 440) + 69)
          (\<lambda>path. take 11 path = ''temp_audio/'' \<and> drop 11 path \<noteq> [] \<and>
                   CHR ''/'' \<notin> set (drop 11 path))
          (replicate 11 \<lparr>doc_id = ObjectId ''a1'', title = ''Air'',
             composer = ''Johann Sebastian Bach'', melodic_contour = ''*UUD'',
             lilypond_path = ''air.ly''\<rparr>)
          \<lparr>filename = ''q.wav'', contents = audio_bytes [440, 880]\<rparr> = Some (Inr r) \<and>
        length (audio_results r) = 10)"
proof -
  let ?d = "\<lparr>doc_id = ObjectId ''a1'', title = ''Air'',
             composer = ''Johann Sebastian Bach'', melodic_contour = ''*UUD'',
             lilypond_path = ''air.ly''\<rparr>"
  let ?hz = "\<lambda>f :: real. 12 * (log 2 f - log 2 440) + 69"
  let ?fs = "\<lambda>path. take 11 path = ''temp_audio/'' \<and> drop 11 path \<noteq> [] \<and>
              CHR ''/'' \<notin> set (drop 11 path)"
  let ?up = "\<lparr>filename = ''q.wav'', contents = audio_bytes [440, 880]\<rparr>"
  have w: "?fs (path_join ''temp_audio'' (filename ?up))"
    by (simp add: path_join_def)
  have m1: "match_anywhere ''U'' (melodic_contour ?d)"
    by (simp add: ascii_lower_def)
  have m2: "match_anywhere ''*U'' (melodic_contour ?d)"
    by (simp add: ascii_lower_def)
  have "audio_notes ?hz [440, 880] = [69, 81]"
    by (simp add: audio_notes_def frame_step_def log2_octaves)
  then have "audio_to_contour ?hz (decoded [440, 880]) = Some ''*U''"
    by (simp only: audio_to_contour_decoded)
       (simp add: notes_to_contour_def contour_append_def)
  then have contour: "audio_to_contour ?hz (written_file (contents ?up)) = Some ''*U''"
    by simp
  have f1: "filter (\<lambda>doc. match_anywhere ''U'' (melodic_contour doc)) (replicate 21 ?d) =
              replicate 21 ?d"
    using m1 by (simp only: filter_replicate if_True)
  have f2: "filter (\<lambda>doc. match_anywhere ''*U'' (melodic_contour doc)) (replicate 11 ?d) =
              replicate 11 ?d"
    using m2 by (simp only: filter_replicate if_True)
  from result_caps[of "replicate 21 ?d" "''U''" ?fs ?up ?hz]
  obtain r where r: "search_by_parsons (replicate 21 ?d) ''U'' = Some r"
      "length (results r) =
         min 20 (length (filter (\<lambda>doc. match_anywhere ''U'' (melodic_contour doc))
                           (replicate 21 ?d)))"
    by blast
  from r(2) have "length (results r) = 20"
    by (simp only: f1 length_replicate)
  with r(1) have a: "\<exists>r. search_by_parsons (replicate 21 ?d) ''U'' = Some r \<and>
        length (results r) = 20"
    by blast
  from result_caps[of "replicate 11 ?d" "''U''" ?fs ?up ?hz] w contour
  obtain s where s: "search_by_audio ?hz ?fs (replicate 11 ?d) ?up = Some (Inr s)"
      "length (audio_results s) =
         min 10 (length (filter (\<lambda>doc. match_anywhere ''*U'' (melodic_contour doc))
                           (replicate 11 ?d)))"
    by blast
  from s(2) have "length (audio_results s) = 10"
    by (simp only: f2 length_replicate)
  with s(1) have b: "\<exists>r. search_by_audio ?hz ?fs (replicate 11 ?d) ?up = Some (Inr r) \<and>
        length (audio_results r) = 10"
    by blast
  from contour have contour': "audio_to_contour ?hz (written_file (audio_bytes [440, 880])) =
      Some ''*U''"
    by simp
  from a contour' b show ?thesis by (intro conjI)
qed

end
